theory Spec2Isabelle
  imports Main "HOL-Library.Word"
begin

unbundle bit_operations_syntax

section \<open>Data model of hash_table.h\<close>

text \<open>
  The fields of the structs carry a prefix (\<open>e_\<close>, \<open>ht_\<close>, \<open>it_\<close>), so that
  the parameters of the functions keep the names they have in the source.
  \<open>size_t\<close> and \<open>u_int64_t\<close> are 64-bit words. A \<open>void *\<close> value is the
  address it holds, with \<open>NULL\<close> the address 0. A C string is the list of its bytes
  before the terminating NUL; a \<open>const char *\<close> key slot is \<open>None\<close> when the pointer
  is \<open>NULL\<close> and \<open>Some k\<close> when it points to the string \<open>k\<close>.
\<close>

type_synonym size_t = "64 word"
type_synonym ptr = "64 word"

record HashTableEntry =
  e_key :: "string option"
  e_value :: ptr

record HashTable =
  ht_capacity :: size_t
  ht_length :: size_t
  ht_entries :: "HashTableEntry list"

text \<open>
  The iterator's back-reference \<open>_table\<close> is passed to \<open>hashtable_next\<close> as an
  argument; the record keeps the cursor and the current pair.
\<close>

record hashtable_iterator =
  it_key :: "string option"
  it_value :: ptr
  it_index :: size_t

definition INITIAL_CAPACITY :: size_t where
  "INITIAL_CAPACITY = 16"

text \<open>What \<open>calloc\<close> returns: every slot has a \<open>NULL\<close> key and a \<open>NULL\<close> value.\<close>

definition calloc_entries :: "size_t \<Rightarrow> HashTableEntry list" where
  "calloc_entries n = replicate (unat n) \<lparr>e_key = None, e_value = 0\<rparr>"

section \<open>The hash function\<close>

fun djb2_loop :: "64 word \<Rightarrow> string \<Rightarrow> 64 word" where
  "djb2_loop hash [] = hash"
| "djb2_loop hash (c # key) = djb2_loop ((push_bit 5 hash + hash) + of_char c) key"

definition djb2_hash :: "string \<Rightarrow> 64 word" where
  "djb2_hash key = djb2_loop 5381 key"

section \<open>The insertion primitive\<close>

text \<open>
  The probing loop of \<open>hashtable_set_entry\<close>. \<open>Inl (k, entries')\<close> is the return from
  inside the loop (the slot's key \<open>k\<close> is returned and \<open>entries'\<close> is the array after
  the write of the value); \<open>Inr index\<close> is the exit of the loop at a slot whose key is
  \<open>NULL\<close>. The result \<open>None\<close> means that the call has no defined result: the loop runs
  forever, or it reads outside the array.
\<close>

partial_function (option) set_entry_probe ::
  "HashTableEntry list \<Rightarrow> size_t \<Rightarrow> string \<Rightarrow> ptr \<Rightarrow> size_t
     \<Rightarrow> ((string \<times> HashTableEntry list) + size_t) option" where
  "set_entry_probe entries capacity key val index =
     (if unat index < length entries then
        (case e_key (entries ! unat index) of
           None \<Rightarrow> Some (Inr index)
         | Some k \<Rightarrow>
             if key \<noteq> k then
               Some (Inl (k, entries[unat index := (entries ! unat index)\<lparr>e_value := val\<rparr>]))
             else
               set_entry_probe entries capacity key val
                 (if index + 1 \<ge> capacity then 0 else index + 1))
      else None)"

declare set_entry_probe.simps [code]

text \<open>
  \<open>p_length\<close> is \<open>None\<close> for the \<open>NULL\<close> pointer and \<open>Some n\<close> for a pointer to a
  counter holding \<open>n\<close>; the counter after the call is returned. \<open>strdup_ok\<close> says
  whether \<open>strdup\<close> succeeds when it is called. The first component of the result is the
  returned key pointer (\<open>None\<close> for \<open>NULL\<close>).
\<close>

definition hashtable_set_entry ::
  "bool \<Rightarrow> HashTableEntry list \<Rightarrow> size_t \<Rightarrow> string \<Rightarrow> ptr \<Rightarrow> size_t option
     \<Rightarrow> (string option \<times> HashTableEntry list \<times> size_t option) option" where
  "hashtable_set_entry strdup_ok entries capacity key val p_length =
     (let hash = djb2_hash key;
          index = hash AND (capacity - 1)
      in case set_entry_probe entries capacity key val index of
           None \<Rightarrow> None
         | Some (Inl (k, entries')) \<Rightarrow> Some (Some k, entries', p_length)
         | Some (Inr index) \<Rightarrow>
             (case p_length of
                Some n \<Rightarrow>
                  if strdup_ok then
                    Some (Some key, entries[unat index := \<lparr>e_key = Some key, e_value = val\<rparr>],
                          Some (n + 1))
                  else Some (None, entries, p_length)
              | None \<Rightarrow>
                  Some (Some key, entries[unat index := \<lparr>e_key = Some key, e_value = val\<rparr>],
                        None)))"

section \<open>Growing the table\<close>

text \<open>
  The migration loop of \<open>hashtable_expand\<close>, over the old slots in index order.
\<close>

fun expand_loop ::
  "HashTableEntry list \<Rightarrow> HashTableEntry list \<Rightarrow> size_t \<Rightarrow> HashTableEntry list option" where
  "expand_loop [] new_entries new_capacity = Some new_entries"
| "expand_loop (entry # rest) new_entries new_capacity =
     (case e_key entry of
        Some k \<Rightarrow>
          (case hashtable_set_entry False new_entries new_capacity k (e_value entry) None of
             None \<Rightarrow> None
           | Some (r, new_entries', p) \<Rightarrow> expand_loop rest new_entries' new_capacity)
      | None \<Rightarrow> expand_loop rest new_entries new_capacity)"

text \<open>
  \<open>calloc_ok\<close> says whether the allocation of the new array succeeds. The slots read
  by the loop are \<open>_entries[0]\<close> to \<open>_entries[capacity - 1]\<close>.
\<close>

definition hashtable_expand :: "bool \<Rightarrow> HashTable \<Rightarrow> (bool \<times> HashTable) option" where
  "hashtable_expand calloc_ok table =
     (let new_capacity = ht_capacity table * 2 in
      if new_capacity < ht_capacity table then Some (False, table)
      else if \<not> calloc_ok then Some (False, table)
      else if length (ht_entries table) < unat (ht_capacity table) then None
      else
        (case expand_loop (map (\<lambda>i. ht_entries table ! i) [0..<unat (ht_capacity table)])
                (calloc_entries new_capacity) new_capacity of
           None \<Rightarrow> None
         | Some new_entries \<Rightarrow>
             Some (True, table\<lparr>ht_entries := new_entries, ht_capacity := new_capacity\<rparr>)))"

section \<open>The public operations\<close>

text \<open>The result \<open>None\<close> is the \<open>NULL\<close> that \<open>hashtable_create\<close> returns.\<close>

definition hashtable_create :: "bool \<Rightarrow> bool \<Rightarrow> HashTable option" where
  "hashtable_create malloc_ok calloc_ok =
     (if \<not> malloc_ok then None
      else if \<not> calloc_ok then None
      else Some \<lparr>ht_capacity = INITIAL_CAPACITY, ht_length = 0,
                 ht_entries = calloc_entries INITIAL_CAPACITY\<rparr>)"

partial_function (option) get_probe ::
  "HashTableEntry list \<Rightarrow> size_t \<Rightarrow> string \<Rightarrow> size_t \<Rightarrow> ptr option" where
  "get_probe entries capacity key index =
     (if unat index < length entries then
        (case e_key (entries ! unat index) of
           None \<Rightarrow> Some 0
         | Some k \<Rightarrow>
             if key = k then Some (e_value (entries ! unat index))
             else get_probe entries capacity key
                    (if index + 1 \<ge> capacity then 0 else index + 1))
      else None)"

declare get_probe.simps [code]

definition hashtable_get :: "HashTable \<Rightarrow> string \<Rightarrow> ptr option" where
  "hashtable_get table key =
     (let hash = djb2_hash key;
          index = hash AND (ht_capacity table - 1)
      in get_probe (ht_entries table) (ht_capacity table) key index)"

text \<open>
  \<open>assert(value != NULL)\<close> aborts the process unless the header is compiled with
  \<open>NDEBUG\<close>; the source defines \<open>NDEBUG\<close> nowhere, so the build with the assertion
  is the default one. \<open>ndebug\<close> says whether \<open>NDEBUG\<close> is defined.
\<close>

datatype error = AssertionFailed

text \<open>
  \<open>Inl AssertionFailed\<close> is the abort in \<open>assert\<close>; \<open>Inr (r, table')\<close> is the
  return of the key pointer \<open>r\<close> (\<open>None\<close> for \<open>NULL\<close>) with the table after the
  call. The outer \<open>None\<close> is, as before, a call with no defined result.
\<close>

definition hashtable_set ::
  "bool \<Rightarrow> bool \<Rightarrow> bool \<Rightarrow> HashTable \<Rightarrow> string \<Rightarrow> ptr
     \<Rightarrow> (error + (string option \<times> HashTable)) option" where
  "hashtable_set ndebug calloc_ok strdup_ok table key val =
     (if \<not> ndebug \<and> val = 0 then Some (Inl AssertionFailed)
      else if val = 0 then Some (Inr (None, table))
      else
        (case (if ht_length table \<ge> ht_capacity table div 2
               then hashtable_expand calloc_ok table else Some (True, table)) of
           None \<Rightarrow> None
         | Some (False, table') \<Rightarrow> Some (Inr (None, table'))
         | Some (True, table') \<Rightarrow>
             (case hashtable_set_entry strdup_ok (ht_entries table') (ht_capacity table')
                     key val (Some (ht_length table')) of
                None \<Rightarrow> None
              | Some (r, entries', p) \<Rightarrow>
                  Some (Inr (r, table'\<lparr>ht_entries := entries',
                                  ht_length := (case p of Some n \<Rightarrow> n | None \<Rightarrow> ht_length table')\<rparr>)))))"

definition hashtable_length :: "HashTable \<Rightarrow> size_t" where
  "hashtable_length table = ht_length table"

section \<open>Iteration\<close>

text \<open>
  The source leaves the \<open>key\<close> and \<open>value\<close> fields of a fresh iterator
  uninitialised; here they are \<open>NULL\<close>.
\<close>

definition hashtable_create_iterator :: "HashTable \<Rightarrow> hashtable_iterator" where
  "hashtable_create_iterator table = \<lparr>it_key = None, it_value = 0, it_index = 0\<rparr>"

text \<open>
  The result is the returned flag and the iterator after the call; \<open>None\<close> is a read
  outside the array.
\<close>

function hashtable_next ::
  "HashTable \<Rightarrow> hashtable_iterator \<Rightarrow> (bool \<times> hashtable_iterator) option" where
  "hashtable_next table it =
     (if it_index it < ht_capacity table then
        (if unat (it_index it) < length (ht_entries table) then
           (case e_key (ht_entries table ! unat (it_index it)) of
              Some k \<Rightarrow>
                Some (True, it\<lparr>it_index := it_index it + 1, it_key := Some k,
                                it_value := e_value (ht_entries table ! unat (it_index it))\<rparr>)
            | None \<Rightarrow> hashtable_next table (it\<lparr>it_index := it_index it + 1\<rparr>))
         else None)
      else Some (False, it))"
  by pat_completeness auto
termination
proof (relation "measure (\<lambda>(table, it). unat (ht_capacity table) - unat (it_index it))")
  show "wf (measure (\<lambda>(table, it). unat (ht_capacity table) - unat (it_index it)))"
    by simp
next
  fix table :: HashTable and it :: hashtable_iterator
  assume lt: "it_index it < ht_capacity table"
  then have "unat (it_index it) < unat (ht_capacity table)"
    by (simp add: word_less_nat_alt)
  moreover have "unat (ht_capacity table) < 2 ^ 64"
    using unsigned_less [of "ht_capacity table", where 'a = nat] by simp
  ultimately have "unat (it_index it) + unat (1 :: size_t) < 2 ^ LENGTH(64)"
    by simp
  then have "unat (it_index it + 1) = Suc (unat (it_index it))"
    by (simp add: unat_add_lem [THEN iffD1])
  with lt show "((table, it\<lparr>it_index := it_index it + 1\<rparr>), (table, it))
      \<in> measure (\<lambda>(table, it). unat (ht_capacity table) - unat (it_index it))"
    by (simp add: word_less_nat_alt)
qed

section \<open>Runs of the public operations\<close>

text \<open>
  A run of successful \<open>hashtable_set\<close> calls in the default build, every allocation
  succeeding: the table after the last call, or \<open>None\<close> when one of the calls aborts,
  fails or has no result.
\<close>

fun successful_sets :: "HashTable \<Rightarrow> (string \<times> ptr) list \<Rightarrow> HashTable option" where
  "successful_sets table [] = Some table"
| "successful_sets table ((key, val) # rest) =
     (case hashtable_set False True True table key val of
        Some (Inr (Some k, table')) \<Rightarrow> successful_sets table' rest
      | _ \<Rightarrow> None)"

text \<open>
  The tables that \<open>hashtable_create\<close> and returning calls of \<open>hashtable_set\<close>
  produce, in either build.
\<close>

inductive reachable :: "HashTable \<Rightarrow> bool" where
  reachable_create: "hashtable_create malloc_ok calloc_ok = Some table \<Longrightarrow> reachable table"
| reachable_set: "reachable table \<Longrightarrow>
     hashtable_set ndebug calloc_ok strdup_ok table key val = Some (Inr (r, table')) \<Longrightarrow>
     reachable table'"

text \<open>
  \<open>hashtable_create\<close> followed by a run of successful \<open>hashtable_set\<close> calls.
\<close>

definition table_after :: "(string \<times> ptr) list \<Rightarrow> HashTable option" where
  "table_after kvs =
     (case hashtable_create True True of
        None \<Rightarrow> None
      | Some table \<Rightarrow> successful_sets table kvs)"

text \<open>The table after the keys \<open>a\<close> to \<open>h\<close> have been set to 1 to 8.\<close>

definition table_a_to_h :: HashTable where
  "table_a_to_h =
     \<lparr>ht_capacity = 16, ht_length = 8,
      ht_entries = (calloc_entries 16)
        [6 := \<lparr>e_key = Some ''a'', e_value = 1\<rparr>, 7 := \<lparr>e_key = Some ''b'', e_value = 2\<rparr>,
         8 := \<lparr>e_key = Some ''c'', e_value = 3\<rparr>, 9 := \<lparr>e_key = Some ''d'', e_value = 4\<rparr>,
         10 := \<lparr>e_key = Some ''e'', e_value = 5\<rparr>, 11 := \<lparr>e_key = Some ''f'', e_value = 6\<rparr>,
         12 := \<lparr>e_key = Some ''g'', e_value = 7\<rparr>, 13 := \<lparr>e_key = Some ''h'', e_value = 8\<rparr>]\<rparr>"

section \<open>Bounded probing and the table invariant\<close>

text \<open>
  The two probing loops with a bound on the number of slots they may visit: the result
  is \<open>None\<close> also when the bound is used up before the loop ends.
\<close>

fun get_probe_upto ::
  "nat \<Rightarrow> HashTableEntry list \<Rightarrow> size_t \<Rightarrow> string \<Rightarrow> size_t \<Rightarrow> ptr option" where
  "get_probe_upto 0 entries capacity key index = None"
| "get_probe_upto (Suc n) entries capacity key index =
     (if unat index < length entries then
        (case e_key (entries ! unat index) of
           None \<Rightarrow> Some 0
         | Some k \<Rightarrow>
             if key = k then Some (e_value (entries ! unat index))
             else get_probe_upto n entries capacity key
                    (if index + 1 \<ge> capacity then 0 else index + 1))
      else None)"

fun set_entry_probe_upto ::
  "nat \<Rightarrow> HashTableEntry list \<Rightarrow> size_t \<Rightarrow> string \<Rightarrow> ptr \<Rightarrow> size_t
     \<Rightarrow> ((string \<times> HashTableEntry list) + size_t) option" where
  "set_entry_probe_upto 0 entries capacity key val index = None"
| "set_entry_probe_upto (Suc n) entries capacity key val index =
     (if unat index < length entries then
        (case e_key (entries ! unat index) of
           None \<Rightarrow> Some (Inr index)
         | Some k \<Rightarrow>
             if key \<noteq> k then
               Some (Inl (k, entries[unat index := (entries ! unat index)\<lparr>e_value := val\<rparr>]))
             else
               set_entry_probe_upto n entries capacity key val
                 (if index + 1 \<ge> capacity then 0 else index + 1))
      else None)"

text \<open>The number of slots whose key is not \<open>NULL\<close>.\<close>

definition occupied_slots :: "HashTableEntry list \<Rightarrow> nat" where
  "occupied_slots entries = length (filter (\<lambda>e. e_key e \<noteq> None) entries)"

text \<open>
  The invariant of the tables the public operations produce: the array has
  \<open>capacity\<close> slots, the capacity is a power of two from 16 on, no more slots are
  occupied than \<open>length\<close> says, and at most half of the slots are counted.
\<close>

definition table_inv :: "HashTable \<Rightarrow> bool" where
  "table_inv table \<longleftrightarrow>
     length (ht_entries table) = unat (ht_capacity table) \<and>
     (\<exists>n\<in>{4..<64}. ht_capacity table = 2 ^ n) \<and>
     occupied_slots (ht_entries table) \<le> unat (ht_length table) \<and>
     2 * unat (ht_length table) \<le> unat (ht_capacity table)"


definition table_a_to_i :: HashTable where
  "table_a_to_i =
     \<lparr>ht_capacity = 32, ht_length = 9,
      ht_entries = (calloc_entries 32)
        [6 := \<lparr>e_key = Some ''a'', e_value = 1\<rparr>, 7 := \<lparr>e_key = Some ''b'', e_value = 2\<rparr>,
         8 := \<lparr>e_key = Some ''c'', e_value = 3\<rparr>, 9 := \<lparr>e_key = Some ''d'', e_value = 4\<rparr>,
         10 := \<lparr>e_key = Some ''e'', e_value = 5\<rparr>, 11 := \<lparr>e_key = Some ''f'', e_value = 6\<rparr>,
         12 := \<lparr>e_key = Some ''g'', e_value = 7\<rparr>, 13 := \<lparr>e_key = Some ''h'', e_value = 8\<rparr>,
         14 := \<lparr>e_key = Some ''i'', e_value = 9\<rparr>]\<rparr>"


section \<open>Index arithmetic\<close>

lemma unat_succ_word:
  fixes index capacity :: size_t
  assumes "unat index < unat capacity"
  shows "unat (index + 1) = Suc (unat index)"
proof -
  have "unat capacity < 2 ^ 64"
    using unsigned_less [of capacity, where 'a = nat] by simp
  with assms have "unat index + unat (1 :: size_t) < 2 ^ LENGTH(64)"
    by simp
  then show ?thesis
    by (simp add: unat_add_lem [THEN iffD1])
qed

lemma next_index_unat:
  fixes index capacity :: size_t
  assumes "unat index < unat capacity"
  shows "unat (if index + 1 \<ge> capacity then 0 else index + 1) = Suc (unat index) mod unat capacity"
proof -
  have s: "unat (index + 1) = Suc (unat index)"
    using assms by (rule unat_succ_word)
  show ?thesis
  proof (cases "index + 1 \<ge> capacity")
    case True
    then have "unat capacity \<le> Suc (unat index)"
      using s by (simp add: word_le_nat_alt)
    with assms have "Suc (unat index) = unat capacity" by simp
    with True show ?thesis by simp
  next
    case False
    then have "Suc (unat index) < unat capacity"
      using s by (simp add: word_le_nat_alt)
    with False s show ?thesis by simp
  qed
qed

lemma home_index_in_range:
  fixes hash capacity :: size_t
  assumes "capacity \<noteq> 0"
  shows "unat (hash AND (capacity - 1)) < unat capacity"
proof -
  have "unat (hash AND (capacity - 1)) \<le> unat (capacity - 1)"
    by (rule word_and_le1 [THEN word_le_nat_alt [THEN iffD1]])
  moreover have "unat (capacity - 1) = unat capacity - 1"
    using assms by (rule unat_minus_one)
  moreover have "unat capacity \<noteq> 0"
    using assms by (simp add: unat_eq_0)
  ultimately show ?thesis by simp
qed

section \<open>Termination of the probing loops\<close>

lemma get_probe_upto_returns:
  assumes "length entries = unat capacity" and "unat index < unat capacity"
    and "e_key (entries ! ((unat index + d) mod unat capacity)) = None"
  shows "\<exists>r. get_probe_upto (Suc d) entries capacity key index = Some r"
  using assms(2,3)
proof (induction d arbitrary: index)
  case 0
  then show ?case using assms(1) by simp
next
  case (Suc d)
  let ?next = "if index + 1 \<ge> capacity then 0 else index + 1"
  have n: "unat ?next = Suc (unat index) mod unat capacity"
    using Suc.prems(1) by (rule next_index_unat)
  have "unat ?next < unat capacity"
    using Suc.prems(1) n by simp
  moreover have "(unat ?next + d) mod unat capacity = (unat index + Suc d) mod unat capacity"
    unfolding n by (simp add: mod_add_left_eq)
  ultimately have "\<exists>r. get_probe_upto (Suc d) entries capacity key ?next = Some r"
    using Suc.IH [of ?next] Suc.prems(2) by simp
  then show ?case
    using assms(1) Suc.prems(1)
    by (cases "e_key (entries ! unat index)") (auto simp del: get_probe_upto.simps(2) simp add: get_probe_upto.simps(2) [of "Suc d"])
qed


lemma set_entry_probe_upto_returns:
  assumes "length entries = unat capacity" and "unat index < unat capacity"
    and "e_key (entries ! ((unat index + d) mod unat capacity)) = None"
  shows "\<exists>r. set_entry_probe_upto (Suc d) entries capacity key val index = Some r"
  using assms(2,3)
proof (induction d arbitrary: index)
  case 0
  then show ?case using assms(1) by simp
next
  case (Suc d)
  let ?next = "if index + 1 \<ge> capacity then 0 else index + 1"
  have n: "unat ?next = Suc (unat index) mod unat capacity"
    using Suc.prems(1) by (rule next_index_unat)
  have "unat ?next < unat capacity"
    using Suc.prems(1) n by simp
  moreover have "(unat ?next + d) mod unat capacity = (unat index + Suc d) mod unat capacity"
    unfolding n by (simp add: mod_add_left_eq)
  ultimately have "\<exists>r. set_entry_probe_upto (Suc d) entries capacity key val ?next = Some r"
    using Suc.IH [of ?next] Suc.prems(2) by simp
  then show ?case
    using assms(1) Suc.prems(1)
    by (cases "e_key (entries ! unat index)")
      (auto simp del: set_entry_probe_upto.simps(2)
            simp add: set_entry_probe_upto.simps(2) [of "Suc d"])
qed

lemma get_probe_upto_mono:
  "get_probe_upto n entries capacity key index = Some r \<Longrightarrow>
   get_probe_upto (n + m) entries capacity key index = Some r"
proof (induction n arbitrary: index)
  case 0
  then show ?case by simp
next
  case (Suc n)
  then show ?case
    by (auto split: if_splits option.splits)
qed

lemma set_entry_probe_upto_mono:
  "set_entry_probe_upto n entries capacity key val index = Some r \<Longrightarrow>
   set_entry_probe_upto (n + m) entries capacity key val index = Some r"
proof (induction n arbitrary: index)
  case 0
  then show ?case by simp
next
  case (Suc n)
  then show ?case
    by (auto split: if_splits option.splits)
qed

lemma get_probe_upto_sound:
  "get_probe_upto n entries capacity key index = Some r \<Longrightarrow>
   get_probe entries capacity key index = Some r"
proof (induction n arbitrary: index)
  case 0
  then show ?case by simp
next
  case (Suc n)
  show ?case
    using Suc.prems Suc.IH
    by (subst get_probe.simps) (auto split: if_splits option.splits)
qed

lemma set_entry_probe_upto_sound:
  "set_entry_probe_upto n entries capacity key val index = Some r \<Longrightarrow>
   set_entry_probe entries capacity key val index = Some r"
proof (induction n arbitrary: index)
  case 0
  then show ?case by simp
next
  case (Suc n)
  show ?case
    using Suc.prems Suc.IH
    by (subst set_entry_probe.simps) (auto split: if_splits option.splits)
qed

lemma empty_slot_exists:
  assumes "occupied_slots entries < length entries"
  shows "\<exists>j<length entries. e_key (entries ! j) = None"
proof (rule ccontr)
  assume "\<not> (\<exists>j<length entries. e_key (entries ! j) = None)"
  then have "\<forall>e\<in>set entries. e_key e \<noteq> None"
    by (auto simp: in_set_conv_nth)
  then have "filter (\<lambda>e. e_key e \<noteq> None) entries = entries"
    by (simp add: filter_True del: not_None_eq)
  with assms show False
    by (simp add: occupied_slots_def del: not_None_eq)
qed

lemma distance_to_slot:
  fixes i j c :: nat
  assumes "i < c" and "j < c"
  shows "(i + (j + c - i) mod c) mod c = j"
proof -
  have "(i + (j + c - i) mod c) mod c = (i + (j + c - i)) mod c"
    by (simp add: mod_add_right_eq)
  also have "\<dots> = (j + c) mod c"
    using assms by simp
  also have "\<dots> = j"
    using assms by simp
  finally show ?thesis .
qed

lemma get_probe_within_capacity:
  assumes "length entries = unat capacity" and "unat index < unat capacity"
    and "occupied_slots entries < length entries"
  shows "\<exists>r. get_probe_upto (unat capacity) entries capacity key index = Some r"
proof -
  obtain j where j: "j < unat capacity" "e_key (entries ! j) = None"
    using empty_slot_exists [OF assms(3)] assms(1) by auto
  define d where "d = (j + unat capacity - unat index) mod unat capacity"
  have "(unat index + d) mod unat capacity = j"
    unfolding d_def using assms(2) j(1) by (rule distance_to_slot)
  then obtain r where r: "get_probe_upto (Suc d) entries capacity key index = Some r"
    using get_probe_upto_returns [OF assms(1,2), of d key] j(2) by auto
  have "d < unat capacity"
    unfolding d_def using assms(2) by simp
  then have "unat capacity = Suc d + (unat capacity - Suc d)"
    by simp
  then show ?thesis
    using get_probe_upto_mono [OF r, of "unat capacity - Suc d"] by metis
qed

lemma set_entry_probe_within_capacity:
  assumes "length entries = unat capacity" and "unat index < unat capacity"
    and "occupied_slots entries < length entries"
  shows "\<exists>r. set_entry_probe_upto (unat capacity) entries capacity key val index = Some r"
proof -
  obtain j where j: "j < unat capacity" "e_key (entries ! j) = None"
    using empty_slot_exists [OF assms(3)] assms(1) by auto
  define d where "d = (j + unat capacity - unat index) mod unat capacity"
  have "(unat index + d) mod unat capacity = j"
    unfolding d_def using assms(2) j(1) by (rule distance_to_slot)
  then obtain r where r: "set_entry_probe_upto (Suc d) entries capacity key val index = Some r"
    using set_entry_probe_upto_returns [OF assms(1,2), of d key val] j(2) by auto
  have "d < unat capacity"
    unfolding d_def using assms(2) by simp
  then have "unat capacity = Suc d + (unat capacity - Suc d)"
    by simp
  then show ?thesis
    using set_entry_probe_upto_mono [OF r, of "unat capacity - Suc d"] by metis
qed

section \<open>Occupied slots and the insertion primitive\<close>

lemma occupied_slots_update:
  "i < length xs \<Longrightarrow>
   occupied_slots (xs[i := x]) + (if e_key (xs ! i) = None then 0 else 1)
     = occupied_slots xs + (if e_key x = None then 0 else 1)"
proof (induction xs arbitrary: i)
  case Nil
  then show ?case by simp
next
  case (Cons a xs)
  show ?case
  proof (cases i)
    case 0
    then show ?thesis by (simp add: occupied_slots_def)
  next
    case (Suc k)
    with Cons.prems have "k < length xs" by simp
    from Cons.IH [OF this] Suc show ?thesis
      by (auto simp: occupied_slots_def split: if_splits)
  qed
qed

lemma occupied_slots_update_value:
  assumes "i < length xs" and "e_key (xs ! i) = Some k"
  shows "occupied_slots (xs[i := (xs ! i)\<lparr>e_value := v\<rparr>]) = occupied_slots xs"
  using occupied_slots_update [OF assms(1), of "(xs ! i)\<lparr>e_value := v\<rparr>"] assms(2)
  by simp

lemma occupied_slots_insert:
  assumes "i < length xs" and "e_key (xs ! i) = None"
  shows "occupied_slots (xs[i := \<lparr>e_key = Some k, e_value = v\<rparr>]) = Suc (occupied_slots xs)"
  using occupied_slots_update [OF assms(1), of "\<lparr>e_key = Some k, e_value = v\<rparr>"] assms(2)
  by simp

lemma set_entry_probe_result:
  assumes "set_entry_probe entries capacity key val index = Some res"
  shows "case res of
           Inl (k, entries') \<Rightarrow>
             length entries' = length entries \<and> occupied_slots entries' = occupied_slots entries
         | Inr i \<Rightarrow> unat i < length entries \<and> e_key (entries ! unat i) = None"
  using assms
proof (induction rule: set_entry_probe.raw_induct [rotated 1, consumes 1])
  case (1 probe entries capacity key val index res)
  show ?case
  proof (cases "e_key (entries ! unat index)")
    case None
    with 1(2) show ?thesis
      by (auto split: if_splits)
  next
    case (Some k)
    show ?thesis
    proof (cases "key \<noteq> k")
      case True
      with Some 1(2) show ?thesis
        by (auto split: if_splits simp: occupied_slots_update_value)
    next
      case False
      with Some 1(2) have "probe entries capacity key val
          (if index + 1 \<ge> capacity then 0 else index + 1) = Some res"
        by (auto split: if_splits)
      then show ?thesis by (rule 1(1))
    qed
  qed
qed

lemma hashtable_set_entry_result:
  assumes "hashtable_set_entry strdup_ok entries capacity key val p_length = Some (r, entries', p')"
  shows "length entries' = length entries \<and>
         (case p_length of
            None \<Rightarrow> p' = None \<and> occupied_slots entries' \<le> Suc (occupied_slots entries)
          | Some n \<Rightarrow>
              (p' = Some n \<and> occupied_slots entries' = occupied_slots entries) \<or>
              (p' = Some (n + 1) \<and> occupied_slots entries' = Suc (occupied_slots entries)))"
proof -
  obtain res where res: "set_entry_probe entries capacity key val
      (djb2_hash key AND (capacity - 1)) = Some res"
    using assms by (auto simp: hashtable_set_entry_def Let_def split: option.splits)
  note pr = set_entry_probe_result [OF res]
  show ?thesis
  proof (cases res)
    case (Inl a)
    then show ?thesis
      using assms res pr
      by (cases a) (auto simp: hashtable_set_entry_def Let_def split: option.splits)
  next
    case (Inr i)
    then show ?thesis
      using assms res pr
      by (auto simp: hashtable_set_entry_def Let_def occupied_slots_insert
               split: option.splits if_splits)
  qed
qed

lemma hashtable_set_entry_returns:
  assumes "length entries = unat capacity" and "capacity \<noteq> 0"
    and "occupied_slots entries < length entries"
  shows "\<exists>res. hashtable_set_entry strdup_ok entries capacity key val p_length = Some res"
proof -
  have "unat (djb2_hash key AND (capacity - 1)) < unat capacity"
    using assms(2) by (rule home_index_in_range)
  from set_entry_probe_within_capacity [OF assms(1) this assms(3), of key val]
  obtain res where "set_entry_probe entries capacity key val
      (djb2_hash key AND (capacity - 1)) = Some res"
    using set_entry_probe_upto_sound by blast
  then show ?thesis
    by (auto simp: hashtable_set_entry_def Let_def split: sum.splits option.splits)
qed

lemma expand_loop_returns:
  assumes "new_capacity \<noteq> 0"
  shows "length new_entries = unat new_capacity \<Longrightarrow>
         occupied_slots new_entries + occupied_slots old < length new_entries \<Longrightarrow>
         \<exists>res. expand_loop old new_entries new_capacity = Some res \<and>
               length res = length new_entries \<and>
               occupied_slots res \<le> occupied_slots new_entries + occupied_slots old"
proof (induction old arbitrary: new_entries)
  case Nil
  then show ?case by simp
next
  case (Cons entry rest)
  show ?case
  proof (cases "e_key entry")
    case None
    then have o: "occupied_slots (entry # rest) = occupied_slots rest"
      by (simp add: occupied_slots_def)
    from Cons.IH [OF Cons.prems(1)] Cons.prems(2) o None show ?thesis
      by simp
  next
    case (Some k)
    then have o: "occupied_slots (entry # rest) = Suc (occupied_slots rest)"
      by (simp add: occupied_slots_def)
    have "occupied_slots new_entries < length new_entries"
      using Cons.prems(2) by simp
    from hashtable_set_entry_returns [OF Cons.prems(1) assms this]
    obtain r new_entries' p where
      s: "hashtable_set_entry False new_entries new_capacity k (e_value entry) None
            = Some (r, new_entries', p)"
      by (metis prod_cases3)
    from hashtable_set_entry_result [OF s]
    have l: "length new_entries' = length new_entries"
      and c: "occupied_slots new_entries' \<le> Suc (occupied_slots new_entries)"
      by simp_all
    have "length new_entries' = unat new_capacity"
      using l Cons.prems(1) by simp
    moreover have "occupied_slots new_entries' + occupied_slots rest < length new_entries'"
      using l c o Cons.prems(2) by simp
    ultimately obtain res where
      "expand_loop rest new_entries' new_capacity = Some res"
      "length res = length new_entries'"
      "occupied_slots res \<le> occupied_slots new_entries' + occupied_slots rest"
      using Cons.IH by blast
    then show ?thesis
      using Some s l c o by simp
  qed
qed

section \<open>Preservation of the table invariant\<close>

lemma occupied_slots_calloc: "occupied_slots (calloc_entries n) = 0"
  by (simp add: occupied_slots_def calloc_entries_def)

lemma length_calloc: "length (calloc_entries n) = unat n"
  by (simp add: calloc_entries_def)

lemma unat_two_power:
  assumes "n < 64"
  shows "unat ((2 :: size_t) ^ n) = 2 ^ n"
proof -
  have "(2 :: size_t) ^ n = of_nat (2 ^ n)"
    by simp
  then have "unat ((2 :: size_t) ^ n) = 2 ^ n mod 2 ^ LENGTH(64)"
    by (simp only: unat_of_nat)
  moreover have "(2 :: nat) ^ n < 2 ^ 64"
    using assms by (rule power_strict_increasing) simp
  ultimately show ?thesis by simp
qed

lemma double_capacity:
  fixes capacity :: size_t
  assumes "capacity = 2 ^ n" and "n < 64"
  shows "capacity * 2 < capacity \<longleftrightarrow> n = 63"
proof (cases "n = 63")
  case True
  have "(2 :: size_t) ^ 63 * 2 = 2 ^ 64"
    by simp
  also have "\<dots> = (0 :: size_t)"
    by simp
  finally have "capacity * 2 = 0"
    using assms(1) True by simp
  moreover have "capacity \<noteq> 0"
    using assms by simp
  ultimately show ?thesis
    using True by (simp add: word_gt_0)
next
  case False
  with assms(2) have n: "Suc n < 64" by simp
  have "capacity * 2 = 2 ^ Suc n"
    using assms(1) by simp
  then have "unat (capacity * 2) = 2 ^ Suc n"
    using unat_two_power [OF n] by simp
  moreover have "unat capacity = 2 ^ n"
    using assms by (simp add: unat_two_power)
  ultimately have "\<not> capacity * 2 < capacity"
    by (simp add: word_less_nat_alt)
  with False show ?thesis by simp
qed

lemma hashtable_expand_inv:
  assumes "table_inv table"
  shows "\<exists>b table'. hashtable_expand calloc_ok table = Some (b, table') \<and>
           (\<not> b \<longrightarrow> table' = table) \<and>
           (b \<longrightarrow> ht_length table' = ht_length table \<and>
                  ht_capacity table' = ht_capacity table * 2 \<and>
                  unat (ht_capacity table') = 2 * unat (ht_capacity table) \<and>
                  length (ht_entries table') = unat (ht_capacity table') \<and>
                  occupied_slots (ht_entries table') \<le> occupied_slots (ht_entries table) \<and>
                  (\<exists>n\<in>{4..<64}. ht_capacity table' = 2 ^ n))"
proof -
  from assms obtain n where n: "4 \<le> n" "n < 64" "ht_capacity table = 2 ^ n"
    and len: "length (ht_entries table) = unat (ht_capacity table)"
    and occ: "occupied_slots (ht_entries table) \<le> unat (ht_length table)"
    and load: "2 * unat (ht_length table) \<le> unat (ht_capacity table)"
    by (auto simp: table_inv_def)
  have ucap: "unat (ht_capacity table) = 2 ^ n"
    using n by (simp add: unat_two_power)
  show ?thesis
  proof (cases "n = 63 \<or> \<not> calloc_ok")
    case True
    then have "hashtable_expand calloc_ok table = Some (False, table)"
      using double_capacity [OF n(3) n(2)] by (auto simp: hashtable_expand_def Let_def)
    then show ?thesis by blast
  next
    case False
    then have n': "Suc n < 64" and ok: calloc_ok
      using n(2) by auto
    define new_capacity where "new_capacity = ht_capacity table * 2"
    have nc: "new_capacity = 2 ^ Suc n"
      using n(3) by (simp add: new_capacity_def)
    then have "unat new_capacity = 2 ^ Suc n"
      using unat_two_power [OF n'] by simp
    then have unc: "unat new_capacity = 2 * unat (ht_capacity table)"
      using ucap by simp
    have pos: "0 < unat (ht_capacity table)"
      using ucap by simp
    have nz: "new_capacity \<noteq> 0"
      using unc pos by auto
    have old: "map (\<lambda>i. ht_entries table ! i) [0..<unat (ht_capacity table)] = ht_entries table"
      using len by (metis map_nth)
    have "occupied_slots (calloc_entries new_capacity) + occupied_slots (ht_entries table)
            < length (calloc_entries new_capacity)"
      using occ load pos unc by (simp add: occupied_slots_calloc length_calloc)
    from expand_loop_returns [OF nz length_calloc this]
    obtain res where res: "expand_loop (ht_entries table) (calloc_entries new_capacity) new_capacity = Some res"
      "length res = unat new_capacity"
      "occupied_slots res \<le> occupied_slots (ht_entries table)"
      by (auto simp: occupied_slots_calloc length_calloc)
    have "hashtable_expand calloc_ok table
            = Some (True, table\<lparr>ht_entries := res, ht_capacity := new_capacity\<rparr>)"
      using False double_capacity [OF n(3) n(2)] len old res(1)
      by (simp add: hashtable_expand_def Let_def new_capacity_def)
    moreover have "\<exists>m\<in>{4..<64}. new_capacity = 2 ^ m"
      using nc n' n(1) by (intro bexI [of _ "Suc n"]) auto
    ultimately show ?thesis
      using res(2,3) unc
      by (intro exI [of _ True] exI [of _ "table\<lparr>ht_entries := res, ht_capacity := new_capacity\<rparr>"])
         (simp add: new_capacity_def)
  qed
qed

lemma set_entry_step_inv:
  assumes len: "length (ht_entries table) = unat (ht_capacity table)"
    and pow: "\<exists>n\<in>{4..<64}. ht_capacity table = 2 ^ n"
    and occ: "occupied_slots (ht_entries table) \<le> unat (ht_length table)"
    and room: "2 * unat (ht_length table) + 2 \<le> unat (ht_capacity table)"
  shows "\<exists>r entries' p.
           hashtable_set_entry strdup_ok (ht_entries table) (ht_capacity table) key val
             (Some (ht_length table)) = Some (r, entries', Some p) \<and>
           table_inv (table\<lparr>ht_entries := entries', ht_length := p\<rparr>) \<and>
           (p = ht_length table \<or> p = ht_length table + 1) \<and>
           unat (ht_length table) \<le> unat p"
proof -
  have nz: "ht_capacity table \<noteq> 0"
    using room by (metis add_leD2 not_numeral_le_zero unat_0)
  have "occupied_slots (ht_entries table) < length (ht_entries table)"
    using len occ room by simp
  from hashtable_set_entry_returns [OF len nz this]
  obtain r entries' p' where
    s: "hashtable_set_entry strdup_ok (ht_entries table) (ht_capacity table) key val
          (Some (ht_length table)) = Some (r, entries', p')"
    by (metis prod_cases3)
  from hashtable_set_entry_result [OF s]
  have l: "length entries' = length (ht_entries table)"
    and c: "(p' = Some (ht_length table) \<and>
               occupied_slots entries' = occupied_slots (ht_entries table)) \<or>
            (p' = Some (ht_length table + 1) \<and>
               occupied_slots entries' = Suc (occupied_slots (ht_entries table)))"
    by simp_all
  have "unat (ht_capacity table) < 2 ^ 64"
    using unsigned_less [of "ht_capacity table", where 'a = nat] by simp
  with room have "unat (ht_length table) + unat (1 :: size_t) < 2 ^ LENGTH(64)"
    by simp
  then have u: "unat (ht_length table + 1) = Suc (unat (ht_length table))"
    by (simp add: unat_add_lem [THEN iffD1])
  from c show ?thesis
  proof
    assume "p' = Some (ht_length table) \<and>
            occupied_slots entries' = occupied_slots (ht_entries table)"
    then show ?thesis
      using s l len pow occ room by (auto simp: table_inv_def)
  next
    assume "p' = Some (ht_length table + 1) \<and>
            occupied_slots entries' = Suc (occupied_slots (ht_entries table))"
    then show ?thesis
      using s l len pow occ room u by (auto simp: table_inv_def)
  qed
qed

lemma table_inv_capacity_ge:
  assumes "table_inv table"
  shows "16 \<le> unat (ht_capacity table)"
proof -
  from assms obtain n where n: "4 \<le> n" "n < 64" "ht_capacity table = 2 ^ n"
    by (auto simp: table_inv_def)
  have "(2 :: nat) ^ 4 \<le> 2 ^ n"
    using n(1) by (rule power_increasing) simp
  then show ?thesis
    using n by (simp add: unat_two_power)
qed

lemma hashtable_set_inv:
  assumes inv: "table_inv table"
  shows "\<not> ndebug \<and> val = 0 \<and>
           hashtable_set ndebug calloc_ok strdup_ok table key val = Some (Inl AssertionFailed) \<or>
         (\<exists>r table'. hashtable_set ndebug calloc_ok strdup_ok table key val
                        = Some (Inr (r, table')) \<and>
           table_inv table' \<and>
           (ht_length table' = ht_length table \<or> ht_length table' = ht_length table + 1) \<and>
           unat (ht_length table) \<le> unat (ht_length table') \<and>
           (ht_capacity table' = ht_capacity table \<or>
            ht_capacity table' = ht_capacity table * 2 \<and>
            unat (ht_capacity table') = 2 * unat (ht_capacity table)))"
proof (cases "val = 0")
  case True
  show ?thesis
  proof (cases ndebug)
    case False
    with True show ?thesis
      by (simp add: hashtable_set_def)
  next
    case ndebug: True
    with True have "hashtable_set ndebug calloc_ok strdup_ok table key val
        = Some (Inr (None, table))"
      by (simp add: hashtable_set_def)
    with inv show ?thesis by simp
  qed
next
  case nonnull: False
  from inv have len: "length (ht_entries table) = unat (ht_capacity table)"
    and pow: "\<exists>n\<in>{4..<64}. ht_capacity table = 2 ^ n"
    and occ: "occupied_slots (ht_entries table) \<le> unat (ht_length table)"
    and load: "2 * unat (ht_length table) \<le> unat (ht_capacity table)"
    by (auto simp: table_inv_def)
  note ge = table_inv_capacity_ge [OF inv]
  show ?thesis
  proof (cases "ht_length table \<ge> ht_capacity table div 2")
    case full: True
    from hashtable_expand_inv [OF inv, of calloc_ok]
    obtain b table1 where e: "hashtable_expand calloc_ok table = Some (b, table1)"
      and same: "\<not> b \<Longrightarrow> table1 = table"
      and gl: "b \<Longrightarrow> ht_length table1 = ht_length table"
      and gc: "b \<Longrightarrow> ht_capacity table1 = ht_capacity table * 2"
      and gu: "b \<Longrightarrow> unat (ht_capacity table1) = 2 * unat (ht_capacity table)"
      and ge1: "b \<Longrightarrow> length (ht_entries table1) = unat (ht_capacity table1)"
      and go: "b \<Longrightarrow> occupied_slots (ht_entries table1) \<le> occupied_slots (ht_entries table)"
      and gp: "b \<Longrightarrow> \<exists>n\<in>{4..<64}. ht_capacity table1 = 2 ^ n"
      by blast
    show ?thesis
    proof (cases b)
      case False
      with e same nonnull full
      have "hashtable_set ndebug calloc_ok strdup_ok table key val = Some (Inr (None, table))"
        by (simp add: hashtable_set_def)
      with inv show ?thesis by simp
    next
      case True
      have o1: "occupied_slots (ht_entries table1) \<le> unat (ht_length table1)"
        using go [OF True] gl [OF True] occ by simp
      have r1: "2 * unat (ht_length table1) + 2 \<le> unat (ht_capacity table1)"
        using gu [OF True] gl [OF True] load ge by simp
      from set_entry_step_inv [OF ge1 [OF True] gp [OF True] o1 r1, of strdup_ok key val]
      obtain r entries' p where
        s: "hashtable_set_entry strdup_ok (ht_entries table1) (ht_capacity table1) key val
              (Some (ht_length table1)) = Some (r, entries', Some p)"
        and i: "table_inv (table1\<lparr>ht_entries := entries', ht_length := p\<rparr>)"
        and l: "p = ht_length table1 \<or> p = ht_length table1 + 1"
               "unat (ht_length table1) \<le> unat p"
        by blast
      have "hashtable_set ndebug calloc_ok strdup_ok table key val
              = Some (Inr (r, table1\<lparr>ht_entries := entries', ht_length := p\<rparr>))"
        using nonnull full e True s by (simp add: hashtable_set_def)
      then show ?thesis
        using i l gl [OF True] gc [OF True] gu [OF True] by simp
    qed
  next
    case False
    then have "unat (ht_length table) < unat (ht_capacity table div 2)"
      by (simp add: word_le_nat_alt)
    then have "unat (ht_length table) < unat (ht_capacity table) div 2"
      by (simp add: unat_div)
    then have "2 * unat (ht_length table) + 2 \<le> unat (ht_capacity table)"
      by simp
    from set_entry_step_inv [OF len pow occ this, of strdup_ok key val]
    obtain r entries' p where
      s: "hashtable_set_entry strdup_ok (ht_entries table) (ht_capacity table) key val
            (Some (ht_length table)) = Some (r, entries', Some p)"
      and i: "table_inv (table\<lparr>ht_entries := entries', ht_length := p\<rparr>)"
      and l: "p = ht_length table \<or> p = ht_length table + 1"
             "unat (ht_length table) \<le> unat p"
      by blast
    have "hashtable_set ndebug calloc_ok strdup_ok table key val
            = Some (Inr (r, table\<lparr>ht_entries := entries', ht_length := p\<rparr>))"
      using nonnull False s by (simp add: hashtable_set_def)
    then show ?thesis
      using i l by simp
  qed
qed

lemma table_inv_create:
  assumes "hashtable_create malloc_ok calloc_ok = Some table"
  shows "table_inv table"
proof -
  have t: "table = \<lparr>ht_capacity = 16, ht_length = 0, ht_entries = calloc_entries 16\<rparr>"
    using assms by (auto simp: hashtable_create_def INITIAL_CAPACITY_def split: if_splits)
  have "(16 :: size_t) = 2 ^ 4" by simp
  then have "\<exists>n\<in>{4..<64}. (16 :: size_t) = 2 ^ n"
    by (intro bexI [of _ 4]) auto
  then show ?thesis
    unfolding t by (simp add: table_inv_def length_calloc occupied_slots_calloc)
qed

lemma reachable_inv:
  assumes "reachable table"
  shows "table_inv table"
  using assms
proof (induction rule: reachable.induct)
  case (reachable_create malloc_ok calloc_ok table)
  then show ?case by (rule table_inv_create)
next
  case (reachable_set table ndebug calloc_ok strdup_ok key val r table')
  from hashtable_set_inv [OF reachable_set.IH, of ndebug val calloc_ok strdup_ok key]
    reachable_set.hyps(2)
  show ?case by auto
qed


section \<open>Reachable tables\<close>

lemma reachable_successful_sets:
  "reachable table \<Longrightarrow> successful_sets table kvs = Some table' \<Longrightarrow> reachable table'"
proof (induction kvs arbitrary: table)
  case Nil
  then show ?case by simp
next
  case (Cons kv kvs)
  obtain key val where kv: "kv = (key, val)"
    by (cases kv)
  from Cons.prems(2) kv obtain k table1 where
    s: "hashtable_set False True True table key val = Some (Inr (Some k, table1))"
    and rest: "successful_sets table1 kvs = Some table'"
    by (auto split: option.splits prod.splits sum.splits)
  have "reachable table1"
    using Cons.prems(1) s by (rule reachable_set)
  then show ?case
    using rest by (rule Cons.IH)
qed

lemma reachable_table_after:
  assumes "table_after kvs = Some table"
  shows "reachable table"
proof -
  from assms obtain table0 where c: "hashtable_create True True = Some table0"
    and s: "successful_sets table0 kvs = Some table"
    by (auto simp: table_after_def split: option.splits)
  have "reachable table0"
    using c by (rule reachable_create)
  then show ?thesis
    using s by (rule reachable_successful_sets)
qed

lemma table_inv_probes:
  assumes "table_inv table"
  shows "\<exists>res. set_entry_probe_upto (unat (ht_capacity table)) (ht_entries table)
                 (ht_capacity table) key val (djb2_hash key AND (ht_capacity table - 1)) = Some res"
    and "\<exists>r. get_probe_upto (unat (ht_capacity table)) (ht_entries table)
                 (ht_capacity table) key (djb2_hash key AND (ht_capacity table - 1)) = Some r"
proof -
  from assms have len: "length (ht_entries table) = unat (ht_capacity table)"
    and occ: "occupied_slots (ht_entries table) \<le> unat (ht_length table)"
    and load: "2 * unat (ht_length table) \<le> unat (ht_capacity table)"
    by (auto simp: table_inv_def)
  note ge = table_inv_capacity_ge [OF assms]
  have nz: "ht_capacity table \<noteq> 0"
    using ge by auto
  have home: "unat (djb2_hash key AND (ht_capacity table - 1)) < unat (ht_capacity table)"
    using nz by (rule home_index_in_range)
  have free: "occupied_slots (ht_entries table) < length (ht_entries table)"
    using len occ load ge by simp
  show "\<exists>res. set_entry_probe_upto (unat (ht_capacity table)) (ht_entries table)
                 (ht_capacity table) key val (djb2_hash key AND (ht_capacity table - 1)) = Some res"
    using len home free by (rule set_entry_probe_within_capacity)
  show "\<exists>r. get_probe_upto (unat (ht_capacity table)) (ht_entries table)
                 (ht_capacity table) key (djb2_hash key AND (ht_capacity table - 1)) = Some r"
    using len home free by (rule get_probe_within_capacity)
qed

lemma hashtable_expand_table_inv:
  assumes "table_inv table"
  shows "\<exists>b table1. hashtable_expand calloc_ok table = Some (b, table1) \<and> table_inv table1"
proof -
  from hashtable_expand_inv [OF assms, of calloc_ok]
  obtain b table1 where e: "hashtable_expand calloc_ok table = Some (b, table1)"
    and same: "\<not> b \<Longrightarrow> table1 = table"
    and gl: "b \<Longrightarrow> ht_length table1 = ht_length table"
    and gu: "b \<Longrightarrow> unat (ht_capacity table1) = 2 * unat (ht_capacity table)"
    and ge1: "b \<Longrightarrow> length (ht_entries table1) = unat (ht_capacity table1)"
    and go: "b \<Longrightarrow> occupied_slots (ht_entries table1) \<le> occupied_slots (ht_entries table)"
    and gp: "b \<Longrightarrow> \<exists>n\<in>{4..<64}. ht_capacity table1 = 2 ^ n"
    by blast
  have "table_inv table1"
  proof (cases b)
    case False
    with same assms show ?thesis by simp
  next
    case True
    from assms have "occupied_slots (ht_entries table) \<le> unat (ht_length table)"
      and "2 * unat (ht_length table) \<le> unat (ht_capacity table)"
      by (auto simp: table_inv_def)
    then show ?thesis
      using gl [OF True] gu [OF True] ge1 [OF True] go [OF True] gp [OF True]
      by (simp add: table_inv_def)
  qed
  with e show ?thesis by blast
qed

section \<open>What a failing call returns\<close>












section \<open>Invariants of reachable tables\<close>

text \<open>
  Claim C5. \<open>hashtable_create\<close> gives capacity 16. On every table reachable through
  \<open>hashtable_create\<close> and calls of \<open>hashtable_set\<close>, and on the table after one
  more call of \<open>hashtable_set\<close> that returns (in either build), the capacity is a power of two from \<open>2 ^ 4\<close> on;
  the call leaves the capacity as it is or doubles it (without wrap-around); and
  \<open>length * 2 \<le> capacity\<close> holds before and after the call, so the length never
  exceeds the capacity.
\<close>

theorem capacity_and_load_invariants:
  assumes "reachable table"
    and "hashtable_set ndebug calloc_ok strdup_ok table key val = Some (Inr (r, table'))"
  shows "map_option ht_capacity (hashtable_create True True) = Some 16 \<and>
         (\<exists>n\<in>{4..<64}. ht_capacity table = 2 ^ n) \<and>
         (\<exists>n\<in>{4..<64}. ht_capacity table' = 2 ^ n) \<and>
         (ht_capacity table' = ht_capacity table \<or>
          ht_capacity table' = ht_capacity table * 2 \<and>
          unat (ht_capacity table') = 2 * unat (ht_capacity table)) \<and>
         2 * unat (ht_length table) \<le> unat (ht_capacity table) \<and>
         2 * unat (ht_length table') \<le> unat (ht_capacity table') \<and>
         unat (ht_length table') \<le> unat (ht_capacity table')"
proof -
  have inv: "table_inv table"
    using assms(1) by (rule reachable_inv)
  from hashtable_set_inv [OF inv, of ndebug val calloc_ok strdup_ok key] assms(2)
  have inv': "table_inv table'"
    and cap: "ht_capacity table' = ht_capacity table \<or>
              ht_capacity table' = ht_capacity table * 2 \<and>
              unat (ht_capacity table') = 2 * unat (ht_capacity table)"
    by auto
  have "map_option ht_capacity (hashtable_create True True) = Some 16"
    by (simp add: hashtable_create_def INITIAL_CAPACITY_def)
  then show ?thesis
    using inv inv' cap unfolding table_inv_def by simp
qed

text \<open>
  The table holding \<open>a\<close> to \<open>h\<close> is reachable, has capacity 16 and length 8; the
  set of \<open>i\<close> on it doubles the capacity to 32 and makes the length 9.
\<close>

theorem capacity_and_load_invariants_witness:
  "reachable table_a_to_h \<and>
   hashtable_set False True True table_a_to_h ''i'' 9 = Some (Inr (Some ''i'', table_a_to_i)) \<and>
   ht_capacity table_a_to_i = ht_capacity table_a_to_h * 2 \<and>
   (\<exists>n\<in>{4..<64}. ht_capacity table_a_to_i = 2 ^ n) \<and>
   2 * unat (ht_length table_a_to_i) \<le> unat (ht_capacity table_a_to_i)"
proof -
  have "table_after [(''a'', 1), (''b'', 2), (''c'', 3), (''d'', 4), (''e'', 5), (''f'', 6),
                     (''g'', 7), (''h'', 8)] = Some table_a_to_h"
    by code_simp
  then have r: "reachable table_a_to_h"
    by (rule reachable_table_after)
  have s: "hashtable_set False True True table_a_to_h ''i'' 9 = Some (Inr (Some ''i'', table_a_to_i))"
    by code_simp
  have c: "ht_capacity table_a_to_i = ht_capacity table_a_to_h * 2"
    by (simp add: table_a_to_i_def table_a_to_h_def)
  from capacity_and_load_invariants [OF r s] r s c
  show ?thesis by simp
qed

text \<open>
  Claim C9. On every reachable table the probing loop of \<open>hashtable_get\<close> and the
  probing loop of \<open>hashtable_set_entry\<close> return after visiting at most
  \<open>capacity\<close> slots, for every key: the bounded loops with the bound \<open>capacity\<close>
  have a result, and it is the result of the unbounded loops. The same holds for the
  insertion loop on the table that \<open>hashtable_expand\<close> hands over;
  \<open>hashtable_expand\<close> returns, and \<open>hashtable_set\<close> returns in either build,
  but for a \<open>NULL\<close> value in the default build, where the assertion aborts before
  any loop.
\<close>

theorem probe_loops_terminate:
  assumes "reachable table"
  shows "(\<exists>r. get_probe_upto (unat (ht_capacity table)) (ht_entries table) (ht_capacity table)
                key (djb2_hash key AND (ht_capacity table - 1)) = Some r \<and>
              hashtable_get table key = Some r) \<and>
         (\<exists>res. set_entry_probe_upto (unat (ht_capacity table)) (ht_entries table)
                  (ht_capacity table) key val (djb2_hash key AND (ht_capacity table - 1))
                  = Some res \<and>
                set_entry_probe (ht_entries table) (ht_capacity table) key val
                  (djb2_hash key AND (ht_capacity table - 1)) = Some res) \<and>
         (\<exists>b table1. hashtable_expand calloc_ok table = Some (b, table1) \<and>
            (\<exists>res. set_entry_probe_upto (unat (ht_capacity table1)) (ht_entries table1)
                     (ht_capacity table1) key val (djb2_hash key AND (ht_capacity table1 - 1))
                     = Some res \<and>
                   set_entry_probe (ht_entries table1) (ht_capacity table1) key val
                     (djb2_hash key AND (ht_capacity table1 - 1)) = Some res)) \<and>
         ((\<exists>r table'. hashtable_set ndebug calloc_ok strdup_ok table key val
                         = Some (Inr (r, table'))) \<or>
          \<not> ndebug \<and> val = 0 \<and>
          hashtable_set ndebug calloc_ok strdup_ok table key val = Some (Inl AssertionFailed))"
proof -
  have inv: "table_inv table"
    using assms by (rule reachable_inv)
  from table_inv_probes(2) [OF inv, of key]
  obtain r where r: "get_probe_upto (unat (ht_capacity table)) (ht_entries table)
      (ht_capacity table) key (djb2_hash key AND (ht_capacity table - 1)) = Some r"
    by blast
  have g: "hashtable_get table key = Some r"
    using get_probe_upto_sound [OF r] by (simp add: hashtable_get_def)
  from table_inv_probes(1) [OF inv, of key val]
  obtain res where res: "set_entry_probe_upto (unat (ht_capacity table)) (ht_entries table)
      (ht_capacity table) key val (djb2_hash key AND (ht_capacity table - 1)) = Some res"
    by blast
  note res' = set_entry_probe_upto_sound [OF res]
  from hashtable_expand_table_inv [OF inv, of calloc_ok]
  obtain b table1 where e: "hashtable_expand calloc_ok table = Some (b, table1)"
    and inv1: "table_inv table1"
    by blast
  from table_inv_probes(1) [OF inv1, of key val]
  obtain res1 where res1: "set_entry_probe_upto (unat (ht_capacity table1)) (ht_entries table1)
      (ht_capacity table1) key val (djb2_hash key AND (ht_capacity table1 - 1)) = Some res1"
    by blast
  note res1' = set_entry_probe_upto_sound [OF res1]
  from hashtable_set_inv [OF inv, of ndebug val calloc_ok strdup_ok key]
  have s: "(\<exists>r table'. hashtable_set ndebug calloc_ok strdup_ok table key val
                          = Some (Inr (r, table'))) \<or>
           \<not> ndebug \<and> val = 0 \<and>
           hashtable_set ndebug calloc_ok strdup_ok table key val = Some (Inl AssertionFailed)"
    by blast
  show ?thesis
    using r g res res' e res1 res1' s by blast
qed

text \<open>
  On the table holding \<open>a\<close> to \<open>h\<close>, the lookup of the absent key \<open>q\<close>, whose
  home slot 6 starts a run of eight occupied slots, ends within 16 visits.
\<close>

theorem probe_loops_terminate_witness:
  "reachable table_a_to_h \<and>
   get_probe_upto (unat (ht_capacity table_a_to_h)) (ht_entries table_a_to_h)
       (ht_capacity table_a_to_h) ''q'' (djb2_hash ''q'' AND (ht_capacity table_a_to_h - 1))
     = Some 0 \<and>
   hashtable_get table_a_to_h ''q'' = Some 0 \<and>
   (\<exists>r table'. hashtable_set False True True table_a_to_h ''q'' 9 = Some (Inr (r, table')))"
proof -
  have "table_after [(''a'', 1), (''b'', 2), (''c'', 3), (''d'', 4), (''e'', 5), (''f'', 6),
                     (''g'', 7), (''h'', 8)] = Some table_a_to_h"
    by code_simp
  then have r: "reachable table_a_to_h"
    by (rule reachable_table_after)
  have g: "hashtable_get table_a_to_h ''q'' = Some 0"
    by code_simp
  from probe_loops_terminate [OF r, of "''q''" 9 True False True] r g
  show ?thesis by auto
qed

text \<open>
  Claim C10. A call of \<open>hashtable_set\<close> on a reachable table that returns (in
  either build) leaves the length as
  it is or increments it by exactly one, and the length as a number does not decrease
  (the increment does not wrap around). \<open>hashtable_get\<close>, \<open>hashtable_length\<close>,
  \<open>hashtable_create_iterator\<close> and \<open>hashtable_next\<close> write to no field of the
  table: they return no table.
\<close>

theorem length_never_decreases:
  assumes "reachable table"
    and "hashtable_set ndebug calloc_ok strdup_ok table key val = Some (Inr (r, table'))"
  shows "(hashtable_length table' = hashtable_length table \<or>
          hashtable_length table' = hashtable_length table + 1) \<and>
         unat (hashtable_length table) \<le> unat (hashtable_length table')"
proof -
  have "table_inv table"
    using assms(1) by (rule reachable_inv)
  from hashtable_set_inv [OF this, of ndebug val calloc_ok strdup_ok key] assms(2)
  show ?thesis
    by (auto simp: hashtable_length_def)
qed

text \<open>
  On the table holding \<open>a\<close> to \<open>h\<close>, the set of \<open>i\<close> takes the length from 8 to 9.
\<close>

theorem length_never_decreases_witness:
  "reachable table_a_to_h \<and>
   hashtable_set False True True table_a_to_h ''i'' 9 = Some (Inr (Some ''i'', table_a_to_i)) \<and>
   hashtable_length table_a_to_i = hashtable_length table_a_to_h + 1 \<and>
   unat (hashtable_length table_a_to_h) \<le> unat (hashtable_length table_a_to_i)"
proof -
  have "table_after [(''a'', 1), (''b'', 2), (''c'', 3), (''d'', 4), (''e'', 5), (''f'', 6),
                     (''g'', 7), (''h'', 8)] = Some table_a_to_h"
    by code_simp
  then have r: "reachable table_a_to_h"
    by (rule reachable_table_after)
  have s: "hashtable_set False True True table_a_to_h ''i'' 9 = Some (Inr (Some ''i'', table_a_to_i))"
    by code_simp
  have l: "hashtable_length table_a_to_i = hashtable_length table_a_to_h + 1"
    by (simp add: hashtable_length_def table_a_to_i_def table_a_to_h_def)
  from length_never_decreases [OF r s] r s l
  show ?thesis by simp
qed

section \<open>The comparison in the probing loop of the insertion primitive\<close>

text \<open>
  Claim C1. In \<open>hashtable_set_entry\<close>, an occupied slot with an equal key is to be
  updated in place, without a new slot and without incrementing the length, and an
  occupied slot with another key is to be skipped. The source tests
  \<open>strcmp(key, entries[index].key) != 0\<close> before the update, so it does the reverse.
  On the array of a fresh table after \<open>set(a, 1)\<close>, which holds \<open>a\<close> in slot 6
  (the home slot of both \<open>a\<close> and \<open>q\<close> at capacity 16), inserting \<open>a\<close> again leaves slot 6 as it is, writes a second \<open>a\<close>
  into slot 7 and increments the counter, and inserting \<open>q\<close> overwrites the value
  stored for \<open>a\<close> and returns the key \<open>a\<close>.
\<close>

theorem set_entry_updates_on_unequal_key:
  "map_option ht_entries (table_after [(''a'', 1)])
     = Some ((calloc_entries 16)[6 := \<lparr>e_key = Some ''a'', e_value = 1\<rparr>])
   \<and> hashtable_set_entry True ((calloc_entries 16)[6 := \<lparr>e_key = Some ''a'', e_value = 1\<rparr>])
      16 ''a'' 2 (Some 1)
     = Some (Some ''a'',
             (calloc_entries 16)[6 := \<lparr>e_key = Some ''a'', e_value = 1\<rparr>,
                                 7 := \<lparr>e_key = Some ''a'', e_value = 2\<rparr>],
             Some 2)
   \<and> hashtable_set_entry True ((calloc_entries 16)[6 := \<lparr>e_key = Some ''a'', e_value = 1\<rparr>])
      16 ''q'' 2 (Some 1)
     = Some (Some ''a'',
             (calloc_entries 16)[6 := \<lparr>e_key = Some ''a'', e_value = 2\<rparr>],
             Some 1)"
  by code_simp

text \<open>
  Claim C2. After a successful \<open>set(k, v)\<close>, \<open>get(k)\<close> is to return \<open>v\<close>. On a
  fresh table, \<open>set(a, 1)\<close> and then \<open>set(q, 2)\<close> both succeed (the second returns
  the stored key \<open>a\<close>), and \<open>get(q)\<close> returns \<open>NULL\<close> while \<open>get(a)\<close> returns 2.
\<close>

theorem get_after_set_of_colliding_key:
  "map_option (\<lambda>table. (hashtable_get table ''q'', hashtable_get table ''a''))
     (table_after [(''a'', 1), (''q'', 2)]) = Some (Some 0, Some 2)"
  by code_simp

text \<open>
  Claim C3. A second \<open>set\<close> of a key that is present is to leave the length unchanged
  and to make \<open>get\<close> return the new value. On the table that holds \<open>a\<close> with value 1
  and length 1, \<open>set(a, 2)\<close> succeeds, the length becomes 2 and \<open>get(a)\<close> still
  returns 1.
\<close>

theorem second_set_of_same_key:
  "map_option hashtable_length (table_after [(''a'', 1)]) = Some 1
   \<and> map_option (\<lambda>table. (hashtable_length table, hashtable_get table ''a''))
        (table_after [(''a'', 1), (''a'', 2)]) = Some (2, Some 1)"
  by code_simp

text \<open>
  Claim C4. After N successful sets with M distinct keys the length is to be M. Three
  successful sets of the one key \<open>a\<close> give length 3, and two successful sets of the
  distinct keys \<open>a\<close> and \<open>q\<close> give length 1.
\<close>

theorem length_after_sets:
  "map_option hashtable_length (table_after [(''a'', 1), (''a'', 2), (''a'', 3)]) = Some 3
   \<and> map_option hashtable_length (table_after [(''a'', 1), (''q'', 2)]) = Some 1"
  by code_simp

text \<open>
  Claim C6. After successful sets of distinct keys that force a resize, \<open>get\<close> is to
  return the stored value of every key. The nine distinct keys \<open>a\<close> to \<open>h\<close> and
  \<open>A\<close> are set with success; the ninth set doubles the capacity to 32; afterwards the
  length is 8, \<open>get(A)\<close> returns \<open>NULL\<close> and \<open>get(a)\<close> returns 9, the value given
  for \<open>A\<close>.
\<close>

theorem get_after_resize_of_distinct_keys:
  "map_option (\<lambda>table. (ht_capacity table, hashtable_length table,
                        hashtable_get table ''A'', hashtable_get table ''a''))
     (table_after [(''a'', 1), (''b'', 2), (''c'', 3), (''d'', 4), (''e'', 5), (''f'', 6),
                   (''g'', 7), (''h'', 8), (''A'', 9)])
   = Some (32, 8, Some 0, Some 9)"
  by code_simp

text \<open>
  Claim C8. Iteration is to yield one pair for each key, with the last value set for
  it. After \<open>set(a, 1)\<close> and \<open>set(a, 2)\<close> on a fresh table, the iterator yields the
  pair \<open>(a, 1)\<close>, then the pair \<open>(a, 2)\<close>, then the end of the sequence: the key
  \<open>a\<close> twice, once with a value that is not the last one.
\<close>

theorem iteration_yields_key_twice:
  "(case table_after [(''a'', 1), (''a'', 2)] of
      None \<Rightarrow> False
    | Some table \<Rightarrow>
        (case hashtable_next table (hashtable_create_iterator table) of
           None \<Rightarrow> False
         | Some (more1, it1) \<Rightarrow>
             more1 \<and> it_key it1 = Some ''a'' \<and> it_value it1 = 1 \<and>
             (case hashtable_next table it1 of
                None \<Rightarrow> False
              | Some (more2, it2) \<Rightarrow>
                  more2 \<and> it_key it2 = Some ''a'' \<and> it_value it2 = 2 \<and>
                  map_option fst (hashtable_next table it2) = Some False)))"
  by code_simp

section \<open>Failing calls of set\<close>




end
